theory Spec2Isabelle
  imports Complex_Main "HOL-Library.AList" "HOL-Library.Log_Nat"
begin

section \<open>Floating-point numbers\<close>

text \<open>
  A Python \<^verbatim>\<open>float\<close> is an IEEE 754 binary64 number: a finite value (a rational
  \<open>m * 2 ^ e\<close> with \<open>\<bar>m\<bar> < 2 ^ 53\<close> and \<open>- 1074 \<le> e \<le> 971\<close>; \<open>Finite 0\<close> is \<open>+0.0\<close>),
  the negative zero, an infinity or the NaN. Every operation returns the exact result
  rounded to the nearest such number, ties to the even mantissa.
\<close>

datatype double = Finite rat | NegZero | PosInf | NegInf | NaN

definition pow2 :: "int \<Rightarrow> rat" where
  "pow2 e = (if 0 \<le> e then 2 ^ nat e else 1 / 2 ^ nat (- e))"

text \<open>\<open>ilog2 a\<close> is the binary exponent of \<open>a > 0\<close>: \<open>2 ^ ilog2 a \<le> a < 2 ^ (ilog2 a + 1)\<close>.\<close>

definition ilog2 :: "rat \<Rightarrow> int" where
  "ilog2 a =
     (case quotient_of a of
        (p, q) \<Rightarrow> (let e = bitlen p - bitlen q in if pow2 e \<le> a then e else e - 1))"

definition round_half_even :: "rat \<Rightarrow> int" where
  "round_half_even x =
     (let n = \<lfloor>x\<rfloor>; d = x - of_int n
      in if d < 1 / 2 then n else if 1 / 2 < d then n + 1 else if even n then n else n + 1)"

text \<open>
  The binary64 number nearest to the magnitude \<open>a \<ge> 0\<close> with the sign \<open>neg\<close>. The
  mantissa \<open>n\<close> is counted in units of \<open>2 ^ e\<close>, 53 bits below the leading bit of \<open>a\<close> but
  not below \<open>2 ^ - 1074\<close>; the result overflows to an infinity when its leading bit
  would be \<open>2 ^ 1024\<close> or more, and a magnitude that rounds to nothing is a zero.
\<close>

definition round_double :: "bool \<Rightarrow> rat \<Rightarrow> double" where
  "round_double neg a =
     (if a = 0 then (if neg then NegZero else Finite 0)
      else
        (let e = max (ilog2 a - 52) (- 1074);
             n = round_half_even (a / pow2 e)
         in if n = 0 then (if neg then NegZero else Finite 0)
            else if 1024 < e + bitlen n then (if neg then NegInf else PosInf)
            else Finite ((if neg then - 1 else 1) * of_int n * pow2 e)))"

text \<open>The value of a decimal literal such as \<^verbatim>\<open>45.99\<close>.\<close>

definition float_lit :: "rat \<Rightarrow> double" where
  "float_lit r = round_double (r < 0) \<bar>r\<bar>"

fun is_neg :: "double \<Rightarrow> bool" where
  "is_neg (Finite r) = (r < 0)"
| "is_neg NegZero = True"
| "is_neg NegInf = True"
| "is_neg PosInf = False"
| "is_neg NaN = False"

fun magnitude :: "double \<Rightarrow> rat" where
  "magnitude (Finite r) = \<bar>r\<bar>"
| "magnitude d = 0"

fun signed_value :: "double \<Rightarrow> rat" where
  "signed_value (Finite r) = r"
| "signed_value d = 0"

fun is_inf :: "double \<Rightarrow> bool" where
  "is_inf PosInf = True"
| "is_inf NegInf = True"
| "is_inf d = False"

fun is_zero :: "double \<Rightarrow> bool" where
  "is_zero (Finite r) = (r = 0)"
| "is_zero NegZero = True"
| "is_zero d = False"

text \<open>\<^verbatim>\<open>x * y\<close> on floats: it never raises.\<close>

definition fmul :: "double \<Rightarrow> double \<Rightarrow> double" where
  "fmul x y =
     (if x = NaN \<or> y = NaN then NaN
      else if is_inf x \<or> is_inf y then
        (if is_zero x \<or> is_zero y then NaN
         else if is_neg x \<noteq> is_neg y then NegInf else PosInf)
      else round_double (is_neg x \<noteq> is_neg y) (magnitude x * magnitude y))"

text \<open>\<^verbatim>\<open>x + y\<close> on floats: it never raises.\<close>

definition fadd :: "double \<Rightarrow> double \<Rightarrow> double" where
  "fadd x y =
     (if x = NaN \<or> y = NaN then NaN
      else if is_inf x then (if is_inf y \<and> y \<noteq> x then NaN else x)
      else if is_inf y then y
      else if x = NegZero \<and> y = NegZero then NegZero
      else
        (let r = signed_value x + signed_value y
         in if r = 0 then Finite 0 else round_double (r < 0) \<bar>r\<bar>))"

section \<open>Order management: data model\<close>

text \<open>
  The models of \<^verbatim>\<open>sistema_pedidos.py\<close>. Python's unbounded \<^verbatim>\<open>int\<close> is \<open>int\<close>, a
  \<^verbatim>\<open>float\<close> is a \<open>double\<close>. \<^verbatim>\<open>datetime.now()\<close> is a reading of the clock that the
  caller passes in. Strings are byte lists (UTF-8 for the letters outside ASCII).

  The failures: the three \<^verbatim>\<open>ValueError\<close>s that the service raises, told apart by their
  message (each constructor carries the values the message is formatted from), and the
  \<^verbatim>\<open>OverflowError\<close> of the interpreter when an \<^verbatim>\<open>int\<close> is too large to become a
  \<^verbatim>\<open>float\<close>.
\<close>

type_synonym datetime = nat

datatype error =
    ProductNotFound int
  | InsufficientStock string int int
  | OrderNotFound int
  | OverflowError

text \<open>
  An \<^verbatim>\<open>int\<close> operand of a float operation is first converted, to the nearest float;
  the conversion raises when that would be an infinity, which is from the magnitude
  \<open>2 ^ 1024 - 2 ^ 970\<close> on (\<open>float_of_int_bound\<close> below).
\<close>

definition int_to_double :: "int \<Rightarrow> double" where
  "int_to_double i = round_double (i < 0) (of_int \<bar>i\<bar>)"

definition float_of_int :: "int \<Rightarrow> error + double" where
  "float_of_int i =
     (if is_inf (int_to_double i) then Inl OverflowError else Inr (int_to_double i))"

text \<open>
  A \<^verbatim>\<open>Product\<close> object. Its fields \<^verbatim>\<open>id\<close>, \<^verbatim>\<open>name\<close> and \<^verbatim>\<open>price\<close> are never
  assigned after construction; only \<^verbatim>\<open>stock\<close> is.
\<close>

record product_fixed =
  product_id :: int
  name :: string
  price :: double

record product = product_fixed +
  stock :: int

text \<open>
  An \<^verbatim>\<open>OrderItem\<close> refers to a \<^verbatim>\<open>Product\<close> object that the catalogue holds: the
  object is shared, not copied. The catalogue never adds, removes or replaces an object,
  so the key under which the catalogue holds it identifies the object. The reference is
  that key together with the fields of the object that never change; the stock of the
  item's product is the stock the catalogue has under the key at the time of reading.
\<close>

record order_item =
  product_key :: int
  product :: product_fixed
  quantity :: int

text \<open>\<^verbatim>\<open>self.product.price * self.quantity\<close>, a float times an \<^verbatim>\<open>int\<close>.\<close>

definition subtotal :: "order_item \<Rightarrow> error + double" where
  "subtotal it =
     (case float_of_int (quantity it) of
        Inl e \<Rightarrow> Inl e
      | Inr q \<Rightarrow> Inr (fmul (price (product it)) q))"

record order =
  order_id :: "int option"
  customer_name :: string
  items :: "order_item list"
  status :: string
  created_at :: datetime

text \<open>
  \<^verbatim>\<open>sum(item.subtotal for item in self.items)\<close>: the accumulator starts as the
  \<^verbatim>\<open>int\<close> 0 and each subtotal, computed when its turn comes, is added to it, left to
  right.
\<close>

datatype number = PyInt int | PyFloat double

definition number_add :: "number \<Rightarrow> double \<Rightarrow> error + number" where
  "number_add acc x =
     (case acc of
        PyInt i \<Rightarrow>
          (case float_of_int i of
             Inl e \<Rightarrow> Inl e
           | Inr a \<Rightarrow> Inr (PyFloat (fadd a x)))
      | PyFloat a \<Rightarrow> Inr (PyFloat (fadd a x)))"

fun sum_subtotals :: "number \<Rightarrow> order_item list \<Rightarrow> error + number" where
  "sum_subtotals acc [] = Inr acc"
| "sum_subtotals acc (it # rest) =
     (case subtotal it of
        Inl e \<Rightarrow> Inl e
      | Inr x \<Rightarrow>
          (case number_add acc x of
             Inl e \<Rightarrow> Inl e
           | Inr acc' \<Rightarrow> sum_subtotals acc' rest))"

definition total :: "order \<Rightarrow> error + number" where
  "total ord = sum_subtotals (PyInt 0) (items ord)"

text \<open>
  \<^verbatim>\<open>Order(id=None, customer_name=..., items=...)\<close>: the status defaults to "pending"
  and \<^verbatim>\<open>__post_init__\<close> stamps the creation time.
\<close>

definition Order_new :: "datetime \<Rightarrow> string \<Rightarrow> order_item list \<Rightarrow> order" where
  "Order_new now customer order_items =
     \<lparr>order_id = None, customer_name = customer, items = order_items,
      status = ''pending'', created_at = now\<rparr>"

section \<open>Repositories\<close>

text \<open>
  A Python \<^verbatim>\<open>dict\<close> keeps its keys in insertion order, an assignment to a key that is
  present replaces the value in place, and one to a new key appends: an association list
  with \<open>AList.update\<close>. \<^verbatim>\<open>d.get(k)\<close> is \<open>map_of d k\<close>.
\<close>

record in_memory_order_repository =
  orders :: "(int \<times> order) list"
  next_id :: int

definition InMemoryOrderRepository_init :: in_memory_order_repository where
  "InMemoryOrderRepository_init = \<lparr>orders = [], next_id = 1\<rparr>"

text \<open>
  \<^verbatim>\<open>save\<close> assigns to \<^verbatim>\<open>order.id\<close> in place; the model returns the order as it is after the
  call together with the repository.
\<close>

definition save :: "order \<Rightarrow> in_memory_order_repository \<Rightarrow> order \<times> in_memory_order_repository" where
  "save ord repo =
     (case order_id ord of
        None \<Rightarrow>
          (let ord' = ord\<lparr>order_id := Some (next_id repo)\<rparr> in
           (ord', \<lparr>orders = AList.update (next_id repo) ord' (orders repo),
                   next_id = next_id repo + 1\<rparr>))
      | Some i \<Rightarrow> (ord, repo\<lparr>orders := AList.update i ord (orders repo)\<rparr>))"

definition order_find_by_id :: "int \<Rightarrow> in_memory_order_repository \<Rightarrow> order option" where
  "order_find_by_id oid repo = map_of (orders repo) oid"

definition order_find_all :: "in_memory_order_repository \<Rightarrow> order list" where
  "order_find_all repo = map snd (orders repo)"

type_synonym in_memory_product_repository = "(int \<times> product) list"

definition InMemoryProductRepository_init :: in_memory_product_repository where
  "InMemoryProductRepository_init =
     [(1, \<lparr>product_id = 1, name = ''Laptop Gaming'', price = float_lit 1200, stock = 5\<rparr>),
      (2, \<lparr>product_id = 2, name = ''Mouse Inal'' @ [CHR 0xC3, CHR 0xA1] @ ''mbrico'',
           price = float_lit (4599 / 100), stock = 20\<rparr>),
      (3, \<lparr>product_id = 3, name = ''Teclado Mec'' @ [CHR 0xC3, CHR 0xA1] @ ''nico'',
           price = float_lit (8999 / 100), stock = 15\<rparr>),
      (4, \<lparr>product_id = 4, name = ''Monitor 24'' @ [CHR 0x27],
           price = float_lit (29999 / 100), stock = 8\<rparr>)]"

definition product_find_by_id :: "int \<Rightarrow> in_memory_product_repository \<Rightarrow> product option" where
  "product_find_by_id pid ps = map_of ps pid"

definition product_find_all :: "in_memory_product_repository \<Rightarrow> product list" where
  "product_find_all ps = map snd ps"

text \<open>
  \<^verbatim>\<open>self._products[product_id].stock = new_stock\<close> under the guard
  \<^verbatim>\<open>product_id in self._products\<close>: the object under the key is changed in place.
\<close>

definition update_stock :: "int \<Rightarrow> int \<Rightarrow> in_memory_product_repository \<Rightarrow> in_memory_product_repository" where
  "update_stock pid new_stock ps =
     (if pid \<in> set (map fst ps)
      then AList.map_entry pid (\<lambda>p. p\<lparr>stock := new_stock\<rparr>) ps
      else ps)"

section \<open>Notification services\<close>

text \<open>
  Both services print a confirmation, in which they format \<^verbatim>\<open>order.total\<close>, and return
  \<^verbatim>\<open>True\<close>. What is sent is recorded in an outbox: the channel and the order it
  confirms. The other console prints of the program (the repositories' and the service's
  progress lines) are diagnostics and are left out, except for what their evaluation can
  raise.
\<close>

datatype notification_service = EmailNotificationService | SMSNotificationService

type_synonym outbox = "(notification_service \<times> order) list"

definition send_order_confirmation ::
  "notification_service \<Rightarrow> order \<Rightarrow> outbox \<Rightarrow> error + bool \<times> outbox" where
  "send_order_confirmation svc ord out =
     (case total ord of
        Inl e \<Rightarrow> Inl e
      | Inr t \<Rightarrow> Inr (True, out @ [(svc, ord)]))"

section \<open>The order service\<close>

record order_service =
  order_repository :: in_memory_order_repository
  product_repository :: in_memory_product_repository
  notifier :: notification_service
  sent :: outbox

text \<open>
  \<^verbatim>\<open>OrderItem(product=product, quantity=quantity)\<close> for the object found under the key
  \<open>pid\<close>.
\<close>

definition OrderItem_new :: "int \<Rightarrow> product \<Rightarrow> int \<Rightarrow> order_item" where
  "OrderItem_new pid p qty =
     \<lparr>product_key = pid, product = product_fixed.truncate p, quantity = qty\<rparr>"

text \<open>
  The \<^verbatim>\<open>for product_id, quantity in items\<close> loop of \<^verbatim>\<open>create_order\<close>. The progress
  line of an item formats \<^verbatim>\<open>order_item.subtotal\<close>, which can raise, before the stock is
  updated. A \<^verbatim>\<open>raise\<close> leaves the loop with the catalogue as the earlier iterations left
  it.
\<close>

fun check_items ::
  "(int \<times> int) list \<Rightarrow> order_item list \<Rightarrow> in_memory_product_repository
     \<Rightarrow> (error + order_item list) \<times> in_memory_product_repository" where
  "check_items [] order_items ps = (Inr order_items, ps)"
| "check_items ((pid, qty) # rest) order_items ps =
     (case product_find_by_id pid ps of
        None \<Rightarrow> (Inl (ProductNotFound pid), ps)
      | Some p \<Rightarrow>
          if stock p < qty then (Inl (InsufficientStock (name p) (stock p) qty), ps)
          else
            (case subtotal (OrderItem_new pid p qty) of
               Inl e \<Rightarrow> (Inl e, ps)
             | Inr x \<Rightarrow>
                 check_items rest
                   (order_items @ [OrderItem_new pid p qty])
                   (update_stock pid (stock p - qty) ps)))"

text \<open>
  After the loop the order is built, saved and confirmed. A failure of the confirmation
  would come after the save, so the order would stay saved.
\<close>

definition create_order ::
  "datetime \<Rightarrow> string \<Rightarrow> (int \<times> int) list \<Rightarrow> order_service \<Rightarrow> (error + order) \<times> order_service" where
  "create_order now customer its s =
     (case check_items its [] (product_repository s) of
        (Inl e, ps) \<Rightarrow> (Inl e, s\<lparr>product_repository := ps\<rparr>)
      | (Inr order_items, ps) \<Rightarrow>
          (case save (Order_new now customer order_items) (order_repository s) of
             (ord, repo) \<Rightarrow>
               (case send_order_confirmation (notifier s) ord (sent s) of
                  Inl e \<Rightarrow> (Inl e, s\<lparr>order_repository := repo, product_repository := ps\<rparr>)
                | Inr (ok, out) \<Rightarrow>
                    (Inr ord, s\<lparr>order_repository := repo, product_repository := ps, sent := out\<rparr>))))"

definition get_order :: "int \<Rightarrow> order_service \<Rightarrow> (error + order) \<times> order_service" where
  "get_order oid s =
     (case order_find_by_id oid (order_repository s) of
        None \<Rightarrow> (Inl (OrderNotFound oid), s)
      | Some ord \<Rightarrow> (Inr ord, s))"

definition list_orders :: "order_service \<Rightarrow> order list \<times> order_service" where
  "list_orders s = (order_find_all (order_repository s), s)"

definition get_available_products :: "order_service \<Rightarrow> product list \<times> order_service" where
  "get_available_products s = (product_find_all (product_repository s), s)"

text \<open>\<^verbatim>\<open>DependencyContainer\<close>: fresh repositories and the notifier picked by the flag.\<close>

definition get_notification_service :: "string \<Rightarrow> notification_service" where
  "get_notification_service notification_type =
     (if notification_type = ''sms'' then SMSNotificationService else EmailNotificationService)"

definition get_order_service :: "string \<Rightarrow> order_service" where
  "get_order_service notification_type =
     \<lparr>order_repository = InMemoryOrderRepository_init,
      product_repository = InMemoryProductRepository_init,
      notifier = get_notification_service notification_type,
      sent = []\<rparr>"

section \<open>Vocabulary of the properties\<close>

text \<open>
  The \<^verbatim>\<open>Product\<close> object that an order item refers to, as the catalogue \<open>ps\<close> has
  it.
\<close>

definition item_product :: "in_memory_product_repository \<Rightarrow> order_item \<Rightarrow> product option" where
  "item_product ps it = map_of ps (product_key it)"

text \<open>
  \<open>requested k its\<close> is the total quantity that the pairs of a request ask of product \<open>k\<close>.
\<close>

definition requested :: "int \<Rightarrow> (int \<times> int) list \<Rightarrow> int" where
  "requested k its = sum_list (map snd (filter (\<lambda>it. fst it = k) its))"

text \<open>
  \<open>in_stock ps earlier its\<close>: every pair of \<open>its\<close> names a product of the catalogue \<open>ps\<close>
  and asks for no more than what is left of that product's stock in \<open>ps\<close> once the pairs
  before it (those of \<open>earlier\<close> and of \<open>its\<close>) have been served. It is stated on the
  catalogue as it is before the call.
\<close>

fun in_stock :: "in_memory_product_repository \<Rightarrow> (int \<times> int) list \<Rightarrow> (int \<times> int) list \<Rightarrow> bool" where
  "in_stock ps earlier [] = True"
| "in_stock ps earlier ((k, q) # rest) =
     (case product_find_by_id k ps of
        None \<Rightarrow> False
      | Some p \<Rightarrow> q \<le> stock p - requested k earlier \<and> in_stock ps (earlier @ [(k, q)]) rest)"

text \<open>The quantities that a float can hold: those whose conversion does not raise.\<close>

definition fits_float :: "int \<Rightarrow> bool" where
  "fits_float q = (\<bar>q\<bar> < 2 ^ 1024 - 2 ^ 970)"

text \<open>The product under \<open>k\<close> with its stock reduced by all that \<open>its\<close> asks of it.\<close>

definition reduced :: "in_memory_product_repository \<Rightarrow> (int \<times> int) list \<Rightarrow> int \<Rightarrow> product option" where
  "reduced ps its k =
     map_option (\<lambda>p. p\<lparr>stock := stock p - requested k its\<rparr>) (product_find_by_id k ps)"




text \<open>
  A run of \<^verbatim>\<open>save\<close> calls on one repository: the orders as they are after their call, and
  the repository at the end.
\<close>

fun save_all :: "order list \<Rightarrow> in_memory_order_repository \<Rightarrow> order list \<times> in_memory_order_repository" where
  "save_all [] repo = ([], repo)"
| "save_all (ord # rest) repo =
     (case save ord repo of
        (ord', repo') \<Rightarrow>
          (case save_all rest repo' of (saved, repo'') \<Rightarrow> (ord' # saved, repo'')))"

text \<open>
  The identifiers that the run gave to the orders that came without one, in the order of
  the calls.
\<close>

definition assigned_ids :: "order list \<Rightarrow> in_memory_order_repository \<Rightarrow> int option list" where
  "assigned_ids os repo =
     map (\<lambda>pr. order_id (snd pr))
       (filter (\<lambda>pr. order_id (fst pr) = None) (zip os (fst (save_all os repo))))"

text \<open>
  The calls of \<^verbatim>\<open>OrderService\<close>; \<open>perform\<close> is the service after a call, whether the call
  returned or raised.
\<close>

datatype request =
    CreateOrder datetime string "(int \<times> int) list"
  | GetOrder int
  | ListOrders
  | GetAvailableProducts

fun perform :: "request \<Rightarrow> order_service \<Rightarrow> order_service" where
  "perform (CreateOrder now customer its) s = snd (create_order now customer its s)"
| "perform (GetOrder oid) s = snd (get_order oid s)"
| "perform ListOrders s = snd (list_orders s)"
| "perform GetAvailableProducts s = snd (get_available_products s)"

definition stocks_non_negative :: "in_memory_product_repository \<Rightarrow> bool" where
  "stocks_non_negative ps = list_all (\<lambda>(k, p). 0 \<le> stock p) ps"

section \<open>Facts about the arithmetic, the repositories and the loop\<close>

text \<open>
  The arithmetic at values that the interpreter prints: the literal \<^verbatim>\<open>45.99\<close>,
  \<^verbatim>\<open>45.99 * 20 = 919.8000000000001\<close> and \<^verbatim>\<open>0.1 + 0.2 = 0.30000000000000004\<close>.
\<close>

lemma float_lit_4599: "float_lit (4599 / 100) = Finite (6472517089461535 / 140737488355328)"
  by code_simp

lemma fmul_4599_20:
  "fmul (float_lit (4599 / 100)) (int_to_double 20) = Finite (8090646361826919 / 8796093022208)"
  by code_simp

lemma fadd_tenths:
  "fadd (float_lit (1 / 10)) (float_lit (2 / 10)) = Finite (1351079888211149 / 4503599627370496)"
  by code_simp

lemma fmul_8999_3:
  "fmul (float_lit (8999 / 100)) (int_to_double 3) = Finite (4749362466410987 / 17592186044416)"
  by code_simp

lemma pow2_nonneg: "0 \<le> e \<Longrightarrow> pow2 e = 2 ^ nat e"
  by (simp add: pow2_def)

lemma ilog2_of_int:
  assumes "0 < m"
  shows "ilog2 (of_int m) = bitlen m - 1"
proof -
  from assms have b: "1 \<le> bitlen m"
    by (simp add: bitlen_ge_iff_power)
  have "(2::int) ^ nat (bitlen m - 1) \<le> m"
    using bitlen_bounds [OF assms] by simp
  then have "(of_int ((2::int) ^ nat (bitlen m - 1)) :: rat) \<le> of_int m"
    by (simp only: of_int_le_iff)
  then have "pow2 (bitlen m - 1) \<le> of_int m"
    using b by (simp add: pow2_nonneg)
  moreover have "bitlen 1 = 1"
    by (simp add: bitlen_alt_def)
  ultimately show ?thesis
    by (simp add: ilog2_def Let_def)
qed

lemma round_half_even_cases:
  "(round_half_even x = \<lfloor>x\<rfloor> \<and> x \<le> of_int \<lfloor>x\<rfloor> + 1 / 2) \<or>
   (round_half_even x = \<lfloor>x\<rfloor> + 1 \<and> of_int \<lfloor>x\<rfloor> + 1 / 2 \<le> x)"
proof -
  define n where "n = \<lfloor>x\<rfloor>"
  define d where "d = x - of_int n"
  have x: "x = of_int n + d"
    by (simp add: d_def)
  have r: "round_half_even x =
      (if d < 1 / 2 then n else if 1 / 2 < d then n + 1 else if even n then n else n + 1)"
    by (simp only: round_half_even_def Let_def n_def d_def)
  consider "d < 1 / 2" | "1 / 2 < d" | "d = 1 / 2"
    by linarith
  then have "(round_half_even x = n \<and> d \<le> 1 / 2) \<or> (round_half_even x = n + 1 \<and> 1 / 2 \<le> d)"
    by cases (simp_all add: r)
  then show ?thesis
    unfolding d_def n_def by (auto simp: algebra_simps)
qed

lemma round_half_even_bounds:
  "x - 1 / 2 \<le> of_int (round_half_even x) \<and> of_int (round_half_even x) \<le> x + 1 / 2"
proof -
  have fl: "x < of_int \<lfloor>x\<rfloor> + 1" "of_int \<lfloor>x\<rfloor> \<le> x"
    by linarith+
  from round_half_even_cases [of x]
  consider (down) "round_half_even x = \<lfloor>x\<rfloor>" "x \<le> of_int \<lfloor>x\<rfloor> + 1 / 2"
    | (up) "round_half_even x = \<lfloor>x\<rfloor> + 1" "of_int \<lfloor>x\<rfloor> + 1 / 2 \<le> x"
    by blast
  then have "x - 1 / 2 \<le> of_int (round_half_even x) \<and> of_int (round_half_even x) \<le> x + 1 / 2"
  proof cases
    case down
    have "(of_int (round_half_even x) :: rat) = of_int \<lfloor>x\<rfloor>"
      by (simp only: down(1))
    with fl down(2) show ?thesis by linarith
  next
    case up
    have "(of_int (round_half_even x) :: rat) = of_int \<lfloor>x\<rfloor> + 1"
      by (simp only: up(1) of_int_add of_int_1)
    with fl up(2) show ?thesis by linarith
  qed
  then show ?thesis .
qed

text \<open>At the tie just below an even integer the rounding goes up to it.\<close>

lemma round_half_even_up:
  assumes "of_int k - 1 / 2 \<le> x" and "even k"
  shows "k \<le> round_half_even x"
proof (cases "of_int k \<le> x")
  case True
  then have "k \<le> \<lfloor>x\<rfloor>" by (simp add: le_floor_iff)
  with round_half_even_cases [of x] show ?thesis
    by auto
next
  case False
  with assms(1) have fl: "\<lfloor>x\<rfloor> = k - 1"
    by (intro floor_unique) auto
  define d where "d = x - of_int (k - 1)"
  have d: "1 / 2 \<le> d"
    using assms(1) by (simp add: d_def)
  have r: "round_half_even x =
      (if d < 1 / 2 then k - 1 else if 1 / 2 < d then k - 1 + 1 else if even (k - 1) then k - 1 else k - 1 + 1)"
    by (simp only: round_half_even_def Let_def fl d_def)
  from d assms(2) show ?thesis
    by (simp add: r)
qed

lemma pow2_powi: "pow2 e = 2 powi e"
  by (simp add: pow2_def power_int_def divide_simps)

lemma pow2_pos [simp]: "0 < pow2 e"
  by (simp add: pow2_powi)

lemma pow2_add: "pow2 (a + b) = pow2 a * pow2 b"
  by (simp add: pow2_powi power_int_add)

lemma pow2_mono: "a \<le> b \<Longrightarrow> pow2 a \<le> pow2 b"
  by (simp add: pow2_powi power_int_increasing)

lemma of_int_ge_pow2: "0 \<le> k \<Longrightarrow> (2::int) ^ nat k \<le> n \<Longrightarrow> pow2 k \<le> of_int n"
proof -
  assume k: "0 \<le> k" and "(2::int) ^ nat k \<le> n"
  then have "(of_int ((2::int) ^ nat k) :: rat) \<le> of_int n"
    by (simp only: of_int_le_iff)
  with k show ?thesis
    by (simp add: pow2_nonneg)
qed

lemma of_int_less_pow2: "0 \<le> k \<Longrightarrow> n < (2::int) ^ nat k \<Longrightarrow> of_int n < pow2 k"
proof -
  assume k: "0 \<le> k" and "n < (2::int) ^ nat k"
  then have "(of_int n :: rat) < of_int ((2::int) ^ nat k)"
    by (simp only: of_int_less_iff)
  with k show ?thesis
    by (simp add: pow2_nonneg)
qed

lemma int_ge_pow2: "0 \<le> k \<Longrightarrow> pow2 k \<le> of_int n \<Longrightarrow> (2::int) ^ nat k \<le> n"
proof -
  assume k: "0 \<le> k" and "pow2 k \<le> of_int n"
  then have "(of_int ((2::int) ^ nat k) :: rat) \<le> of_int n"
    by (simp add: pow2_nonneg)
  then show ?thesis
    by (simp only: of_int_le_iff)
qed

lemma int_less_pow2: "0 \<le> k \<Longrightarrow> of_int n < pow2 k \<Longrightarrow> n < (2::int) ^ nat k"
proof -
  assume k: "0 \<le> k" and "of_int n < pow2 k"
  then have "(of_int n :: rat) < of_int ((2::int) ^ nat k)"
    by (simp add: pow2_nonneg)
  then show ?thesis
    by (simp only: of_int_less_iff)
qed

text \<open>
  The mantissa of a positive integer \<open>m\<close> with \<open>b = bitlen m\<close> bits, counted in units of
  \<open>2 ^ (b - 53)\<close>, and the exponent of the result.
\<close>

lemma round_double_of_int:
  assumes "0 < m"
  defines "e \<equiv> bitlen m - 53"
  defines "n \<equiv> round_half_even (of_int m / pow2 e)"
  shows "round_double neg (of_int m) =
           (if 1024 < e + bitlen n then (if neg then NegInf else PosInf)
            else Finite ((if neg then - 1 else 1) * of_int n * pow2 e))"
    and "pow2 52 \<le> of_int m / pow2 e" and "of_int m / pow2 e < pow2 53" and "0 < n"
proof -
  from assms(1) have b: "1 \<le> bitlen m"
    by (simp add: bitlen_ge_iff_power)
  have lo: "pow2 (bitlen m - 1) \<le> of_int m" and hi: "of_int m < pow2 (bitlen m)"
    using bitlen_bounds [OF assms(1)] b by (auto intro: of_int_ge_pow2 of_int_less_pow2)
  have "pow2 (bitlen m - 1) = pow2 52 * pow2 e" and "pow2 (bitlen m) = pow2 53 * pow2 e"
    by (simp_all add: e_def pow2_add [symmetric])
  with lo hi show x_lo: "pow2 52 \<le> of_int m / pow2 e" and x_hi: "of_int m / pow2 e < pow2 53"
    by (simp_all add: pos_le_divide_eq pos_divide_less_eq)
  have "pow2 52 - 1 / 2 \<le> of_int n"
    using round_half_even_bounds [of "of_int m / pow2 e"] x_lo by (simp add: n_def)
  moreover have "(1::rat) \<le> pow2 52 - 1 / 2"
    by (simp add: pow2_def)
  ultimately have "(0::rat) < of_int n"
    by linarith
  then show n: "0 < n"
    by simp
  have "max (ilog2 (of_int m) - 52) (- 1074) = e"
    using b by (simp add: ilog2_of_int [OF assms(1)] e_def)
  with n assms(1) show "round_double neg (of_int m) =
           (if 1024 < e + bitlen n then (if neg then NegInf else PosInf)
            else Finite ((if neg then - 1 else 1) * of_int n * pow2 e))"
    by (simp add: round_double_def Let_def n_def)
qed

lemma bitlen_gt_iff: "0 \<le> w \<Longrightarrow> (w < bitlen x) = (2 ^ nat w \<le> x)"
  using bitlen_ge_iff_power [of "w + 1" x] by (auto simp: nat_add_distrib)

lemma overflow_iff:
  assumes "0 < m"
  defines "e \<equiv> bitlen m - 53"
  defines "n \<equiv> round_half_even (of_int m / pow2 e)"
  shows "(1024 < e + bitlen n) = (2 ^ 1024 - 2 ^ 970 \<le> m)"
proof -
  define X :: rat where "X = of_int m / pow2 e"
  have n_def': "n = round_half_even X"
    by (simp add: n_def X_def)
  note facts = round_double_of_int(2-4) [OF assms(1), folded e_def, folded X_def]
  have p52: "pow2 52 = 2 ^ 52" and p53: "pow2 53 = 2 ^ 53"
    by (simp_all add: pow2_nonneg)
  have x_lo: "2 ^ 52 \<le> X" and x_hi: "X < 2 ^ 53"
    using facts(1,2) unfolding p52 p53 by simp_all
  have up: "of_int n \<le> X + 1 / 2"
    unfolding n_def' using round_half_even_bounds [of X] by simp
  have n_lo: "2 ^ 52 \<le> n"
  proof -
    have "of_int ((2::int) ^ 52) - 1 / 2 \<le> X"
      using x_lo by simp
    then show ?thesis
      unfolding n_def' by (intro round_half_even_up) simp_all
  qed
  have n_hi: "n \<le> 2 ^ 53"
  proof -
    from up x_hi have "(of_int n :: rat) < of_int (2 ^ 53 + 1)"
      by simp
    then have "n < 2 ^ 53 + 1"
      by (simp only: of_int_less_iff)
    then show ?thesis by simp
  qed
  have b53: "53 \<le> bitlen n"
    using n_lo by (simp add: bitlen_ge_iff_power)
  have b54: "bitlen n \<le> 54"
    using n_hi by (simp add: bitlen_le_iff_power)
  consider (small) "bitlen m \<le> 1023" | (edge) "bitlen m = 1024" | (large) "1025 \<le> bitlen m"
    by linarith
  then show ?thesis
  proof cases
    case small
    then have "m < 2 ^ 1023"
      by (simp add: bitlen_le_iff_power)
    then have "\<not> 2 ^ 1024 - 2 ^ 970 \<le> m"
      by simp
    moreover have "\<not> 1024 < e + bitlen n"
      using small b54 by (simp add: e_def)
    ultimately show ?thesis by simp
  next
    case large
    then have "2 ^ 1024 \<le> m"
      by (simp add: bitlen_ge_iff_power)
    then have "2 ^ 1024 - 2 ^ 970 \<le> m"
      by simp
    moreover have "1024 < e + bitlen n"
      using large b53 by (simp add: e_def)
    ultimately show ?thesis by simp
  next
    case edge
    then have e: "e = 971"
      by (simp add: e_def)
    have "pow2 e = 2 ^ 971"
      by (simp add: e pow2_nonneg)
    then have m: "of_int m = X * 2 ^ 971"
      by (simp add: X_def)
    show ?thesis
    proof (cases "2 ^ 1024 - 2 ^ 970 \<le> m")
      case True
      then have "(of_int (2 ^ 1024 - 2 ^ 970) :: rat) \<le> of_int m"
        by (simp only: of_int_le_iff)
      then have "((2 ^ 53 - 1 / 2) * 2 ^ 971 :: rat) \<le> X * 2 ^ 971"
        unfolding m by simp
      then have "2 ^ 53 - 1 / 2 \<le> X"
        by (simp only: mult_le_cancel_right) simp
      then have "of_int ((2::int) ^ 53) - 1 / 2 \<le> X"
        by simp
      then have "2 ^ 53 \<le> n"
        unfolding n_def' by (intro round_half_even_up) simp_all
      then have "54 \<le> bitlen n"
        by (simp add: bitlen_ge_iff_power)
      with True e show ?thesis by simp
    next
      case False
      then have "(of_int m :: rat) < of_int (2 ^ 1024 - 2 ^ 970)"
        by (simp only: of_int_less_iff not_le)
      then have "X * 2 ^ 971 < ((2 ^ 53 - 1 / 2) * 2 ^ 971 :: rat)"
        unfolding m by simp
      then have "X < 2 ^ 53 - 1 / 2"
        by (simp only: mult_less_cancel_right) simp
      with up have "(of_int n :: rat) < of_int ((2::int) ^ 53)"
        by simp
      then have "n < 2 ^ 53"
        by (simp only: of_int_less_iff)
      then have "bitlen n \<le> 53"
        by (simp add: bitlen_le_iff_power)
      with False e show ?thesis by simp
    qed
  qed
qed

text \<open>
  The conversion of an \<^verbatim>\<open>int\<close> raises exactly from the magnitude \<open>2 ^ 1024 - 2 ^ 970\<close>
  on.
\<close>

lemma float_of_int_bound:
  "float_of_int i =
     (if 2 ^ 1024 - 2 ^ 970 \<le> \<bar>i\<bar> then Inl OverflowError else Inr (int_to_double i))"
proof (cases "i = 0")
  case True
  then show ?thesis
    by (simp add: float_of_int_def int_to_double_def round_double_def)
next
  case False
  then have m: "0 < \<bar>i\<bar>" by simp
  show ?thesis
    using overflow_iff [OF m] round_double_of_int(1) [OF m, of "i < 0"]
    by (simp add: float_of_int_def int_to_double_def del: of_int_abs)
qed

lemma float_of_int_0 [simp]: "float_of_int 0 = Inr (Finite 0)"
  by (simp add: float_of_int_bound int_to_double_def round_double_def)

lemma float_of_int_fits: "fits_float q \<Longrightarrow> float_of_int q = Inr (int_to_double q)"
  by (simp add: fits_float_def float_of_int_bound)

lemma float_of_int_overflow: "\<not> fits_float q \<Longrightarrow> float_of_int q = Inl OverflowError"
  by (simp add: fits_float_def float_of_int_bound)

lemma map_fst_map_entry: "map fst (AList.map_entry k f xs) = map fst xs"
  by (induction xs) auto

lemma map_of_update_stock:
  "map_of (update_stock pid n ps) k =
     (if k = pid then map_option (\<lambda>p. p\<lparr>stock := n\<rparr>) (map_of ps pid) else map_of ps k)"
proof (cases "pid \<in> fst ` set ps")
  case True
  then show ?thesis
    by (auto simp: update_stock_def AList.map_of_map_entry split: option.splits)
next
  case False
  then have "map_of ps pid = None"
    by (simp add: map_of_eq_None_iff)
  with False show ?thesis
    by (simp add: update_stock_def)
qed

lemma map_fst_update_stock: "map fst (update_stock pid n ps) = map fst ps"
  by (simp add: update_stock_def map_fst_map_entry)

lemma requested_Nil [simp]: "requested k [] = 0"
  by (simp add: requested_def)

lemma requested_append: "requested k (xs @ ys) = requested k xs + requested k ys"
  by (simp add: requested_def)

lemma requested_Cons: "requested k ((j, q) # xs) = (if j = k then q else 0) + requested k xs"
  by (simp add: requested_def)

lemma reduced_Nil: "reduced ps [] k = product_find_by_id k ps"
  by (simp add: reduced_def option.map_ident)

lemma OrderItem_new_stock [simp]: "OrderItem_new k (p\<lparr>stock := n\<rparr>) q = OrderItem_new k p q"
  by (simp add: OrderItem_new_def product_fixed.truncate_def)

lemma subtotal_OrderItem_new:
  "fits_float q \<Longrightarrow> subtotal (OrderItem_new k p q) = Inr (fmul (price p) (int_to_double q))"
  by (simp add: subtotal_def OrderItem_new_def product_fixed.truncate_def float_of_int_fits)

text \<open>
  The order item that the loop builds for a pair: the reference to the catalogue's object
  under the pair's key, and the pair's quantity.
\<close>

lemma check_items_in_stock:
  assumes "in_stock ps0 earlier its"
    and "\<forall>it\<in>set its. fits_float (snd it)"
    and "\<And>k. product_find_by_id k ps = reduced ps0 earlier k"
    and "map fst ps = map fst ps0"
  shows "\<exists>new ps'. check_items its acc ps = (Inr (acc @ new), ps') \<and>
           list_all2 (\<lambda>item it. \<exists>p. product_find_by_id (fst it) ps0 = Some p \<and>
                         item = OrderItem_new (fst it) p (snd it)) new its \<and>
           map fst ps' = map fst ps0 \<and>
           (\<forall>k. product_find_by_id k ps' = reduced ps0 (earlier @ its) k)"
  using assms
proof (induction its arbitrary: acc ps earlier)
  case Nil
  then show ?case by simp
next
  case (Cons it rest)
  obtain k q where it: "it = (k, q)" by (cases it)
  from Cons.prems(1) it obtain p0 where
    p0: "product_find_by_id k ps0 = Some p0"
    and enough: "q \<le> stock p0 - requested k earlier"
    and rest: "in_stock ps0 (earlier @ [(k, q)]) rest"
    by (auto split: option.splits)
  from Cons.prems(2) it have fits: "fits_float q" and fits_rest: "\<forall>it\<in>set rest. fits_float (snd it)"
    by simp_all
  define p where "p = p0\<lparr>stock := stock p0 - requested k earlier\<rparr>"
  have found: "product_find_by_id k ps = Some p"
    using Cons.prems(3) [of k] p0 by (simp add: reduced_def p_def)
  have ok: "\<not> stock p < q"
    using enough by (simp add: p_def)
  have item: "OrderItem_new k p q = OrderItem_new k p0 q"
    by (simp add: p_def)
  have sub: "subtotal (OrderItem_new k p0 q) = Inr (fmul (price p0) (int_to_double q))"
    using fits by (rule subtotal_OrderItem_new)
  define ps1 where "ps1 = update_stock k (stock p - q) ps"
  have inv: "product_find_by_id j ps1 = reduced ps0 (earlier @ [(k, q)]) j" for j
    using Cons.prems(3) [of j] Cons.prems(3) [of k] p0
    by (auto simp: ps1_def product_find_by_id_def map_of_update_stock reduced_def
        requested_append requested_Cons p_def)
  have keys: "map fst ps1 = map fst ps0"
    by (simp add: ps1_def map_fst_update_stock Cons.prems(4))
  from Cons.IH [OF rest fits_rest inv keys, of "acc @ [OrderItem_new k p0 q]"]
  obtain new ps' where
    run: "check_items rest (acc @ [OrderItem_new k p0 q]) ps1
            = (Inr ((acc @ [OrderItem_new k p0 q]) @ new), ps')"
    and items: "list_all2 (\<lambda>item it. \<exists>p. product_find_by_id (fst it) ps0 = Some p \<and>
                         item = OrderItem_new (fst it) p (snd it)) new rest"
    and keys': "map fst ps' = map fst ps0"
    and final: "\<And>j. product_find_by_id j ps' = reduced ps0 ((earlier @ [(k, q)]) @ rest) j"
    by blast
  have "check_items (it # rest) acc ps = (Inr (acc @ (OrderItem_new k p0 q # new)), ps')"
    using found ok run sub by (simp add: it ps1_def item)
  moreover have "list_all2 (\<lambda>item it. \<exists>p. product_find_by_id (fst it) ps0 = Some p \<and>
                         item = OrderItem_new (fst it) p (snd it)) (OrderItem_new k p0 q # new) (it # rest)"
    using items p0 by (simp add: it)
  moreover have "\<forall>j. product_find_by_id j ps' = reduced ps0 (earlier @ it # rest) j"
    using final by (simp add: it)
  ultimately show ?case
    using keys' by blast
qed

lemma check_items_append:
  "check_items (xs @ ys) acc ps =
     (case check_items xs acc ps of
        (Inl e, ps') \<Rightarrow> (Inl e, ps')
      | (Inr acc', ps') \<Rightarrow> check_items ys acc' ps')"
  by (induction xs acc ps rule: check_items.induct) (auto split: option.splits sum.splits)



lemma in_stock_append:
  "in_stock ps earlier (xs @ ys) = (in_stock ps earlier xs \<and> in_stock ps (earlier @ xs) ys)"
proof (induction xs arbitrary: earlier)
  case Nil
  then show ?case by simp
next
  case (Cons x xs)
  obtain k q where "x = (k, q)" by (cases x)
  with Cons [of "earlier @ [(k, q)]"] show ?case
    by (simp split: option.splits)
qed

lemma first_failing_pair:
  assumes "\<not> in_stock ps earlier its"
  shows "\<exists>pre k q rest. its = pre @ (k, q) # rest \<and> in_stock ps earlier pre \<and>
           (\<forall>p. product_find_by_id k ps = Some p \<longrightarrow> stock p - requested k (earlier @ pre) < q)"
  using assms
proof (induction its rule: rev_induct)
  case Nil
  then show ?case by simp
next
  case (snoc x xs)
  obtain k q where x: "x = (k, q)" by (cases x)
  show ?case
  proof (cases "in_stock ps earlier xs")
    case True
    with snoc.prems have "\<not> in_stock ps (earlier @ xs) [(k, q)]"
      by (simp add: in_stock_append x)
    then have "\<forall>p. product_find_by_id k ps = Some p \<longrightarrow> stock p - requested k (earlier @ xs) < q"
      by (simp split: option.splits)
    with True show ?thesis
      unfolding x by blast
  next
    case False
    from snoc.IH [OF False] obtain pre j r rest where
      xs: "xs = pre @ (j, r) # rest" and pre: "in_stock ps earlier pre"
      and short: "\<forall>p. product_find_by_id j ps = Some p \<longrightarrow> stock p - requested j (earlier @ pre) < r"
      by blast
    from xs have "xs @ [x] = pre @ (j, r) # (rest @ [x])"
      by simp
    with pre short show ?thesis
      by blast
  qed
qed

lemma in_stock_requested_le:
  assumes "in_stock ps [] its"
    and "product_find_by_id k ps = Some p"
    and "k \<in> fst ` set its"
  shows "requested k its \<le> stock p"
  using assms
proof (induction its rule: rev_induct)
  case Nil
  then show ?case by simp
next
  case (snoc x xs)
  obtain j q where x: "x = (j, q)" by (cases x)
  from snoc.prems(1) have xs: "in_stock ps [] xs" and last: "in_stock ps xs [(j, q)]"
    by (simp_all add: in_stock_append x)
  show ?case
  proof (cases "j = k")
    case True
    with last snoc.prems(2) have "q \<le> stock p - requested k xs"
      by simp
    with True show ?thesis
      by (simp add: x requested_append requested_Cons)
  next
    case False
    with snoc.prems(3) have "k \<in> fst ` set xs"
      by (auto simp: x)
    from snoc.IH [OF xs snoc.prems(2) this] False show ?thesis
      by (simp add: x requested_append requested_Cons)
  qed
qed

text \<open>
  The loop runs to its end exactly on the requests that are \<open>in_stock\<close> with quantities
  that fit a float: the condition, stated on the catalogue before the call, is the one the
  loop tests pair by pair on the catalogue as the earlier pairs left it.
\<close>

lemma check_items_succeeds_only_if:
  assumes "check_items its acc ps = (Inr served, ps')"
    and "\<And>k. product_find_by_id k ps = reduced ps0 earlier k"
  shows "in_stock ps0 earlier its \<and> (\<forall>it\<in>set its. fits_float (snd it))"
  using assms
proof (induction its arbitrary: acc ps earlier)
  case Nil
  then show ?case by simp
next
  case (Cons it rest)
  obtain k q where it: "it = (k, q)" by (cases it)
  from Cons.prems(1) obtain p where found: "product_find_by_id k ps = Some p"
    by (cases "product_find_by_id k ps") (auto simp: it)
  from Cons.prems(1) found have ok: "\<not> stock p < q"
    by (auto simp: it split: if_splits)
  from Cons.prems(1) found ok obtain x where sub: "subtotal (OrderItem_new k p q) = Inr x"
    by (cases "subtotal (OrderItem_new k p q)") (auto simp: it)
  have fits: "fits_float q"
  proof (rule ccontr)
    assume "\<not> fits_float q"
    then have "subtotal (OrderItem_new k p q) = Inl OverflowError"
      by (simp add: subtotal_def OrderItem_new_def float_of_int_overflow)
    with sub show False by simp
  qed
  from found Cons.prems(2) [of k] obtain p0 where
    p0: "product_find_by_id k ps0 = Some p0" and p: "p = p0\<lparr>stock := stock p0 - requested k earlier\<rparr>"
    by (auto simp: reduced_def)
  define ps1 where "ps1 = update_stock k (stock p - q) ps"
  have run: "check_items rest (acc @ [OrderItem_new k p q]) ps1 = (Inr served, ps')"
    using Cons.prems(1) found ok sub by (simp add: it ps1_def)
  have inv: "product_find_by_id j ps1 = reduced ps0 (earlier @ [(k, q)]) j" for j
    using Cons.prems(2) [of j] Cons.prems(2) [of k] p0
    by (auto simp: ps1_def product_find_by_id_def map_of_update_stock reduced_def
        requested_append requested_Cons p)
  from Cons.IH [OF run inv] have "in_stock ps0 (earlier @ [(k, q)]) rest"
    and "\<forall>it\<in>set rest. fits_float (snd it)"
    by simp_all
  moreover have "q \<le> stock p0 - requested k earlier"
    using ok by (simp add: p)
  ultimately show ?case
    using p0 fits by (simp add: it)
qed

lemma check_items_succeeds_iff:
  "(\<exists>served ps'. check_items its [] ps = (Inr served, ps'))
     = (in_stock ps [] its \<and> (\<forall>it\<in>set its. fits_float (snd it)))"
proof
  assume "in_stock ps [] its \<and> (\<forall>it\<in>set its. fits_float (snd it))"
  then show "\<exists>served ps'. check_items its [] ps = (Inr served, ps')"
    using check_items_in_stock [of ps "[]" its ps "[]"] by (auto simp: reduced_Nil)
next
  assume "\<exists>served ps'. check_items its [] ps = (Inr served, ps')"
  then show "in_stock ps [] its \<and> (\<forall>it\<in>set its. fits_float (snd it))"
    using check_items_succeeds_only_if [of its "[]" ps _ _ ps "[]"] by (auto simp: reduced_Nil)
qed

lemma map_entry_list_all:
  assumes "list_all P xs" and "\<And>v. P (k, v) \<Longrightarrow> P (k, f v)"
  shows "list_all P (AList.map_entry k f xs)"
  using assms by (induction xs) auto

lemma update_stock_non_negative:
  assumes "stocks_non_negative ps" and "0 \<le> n"
  shows "stocks_non_negative (update_stock pid n ps)"
  using assms unfolding stocks_non_negative_def update_stock_def
  by (auto intro: map_entry_list_all)

lemma check_items_non_negative:
  "stocks_non_negative ps \<Longrightarrow> stocks_non_negative (snd (check_items its acc ps))"
proof (induction its acc ps rule: check_items.induct)
  case (1 order_items ps)
  then show ?case by simp
next
  case (2 pid qty rest order_items ps)
  show ?case
  proof (cases "product_find_by_id pid ps")
    case None
    with "2.prems" show ?thesis by simp
  next
    case (Some p)
    show ?thesis
    proof (cases "stock p < qty")
      case True
      with Some "2.prems" show ?thesis by simp
    next
      case False
      show ?thesis
      proof (cases "subtotal (OrderItem_new pid p qty)")
        case (Inl e)
        with Some False "2.prems" show ?thesis by simp
      next
        case (Inr x)
        from False have "stocks_non_negative (update_stock pid (stock p - qty) ps)"
          using "2.prems" by (intro update_stock_non_negative) simp_all
        with "2.IH" [OF Some False Inr] Some False Inr show ?thesis by simp
      qed
    qed
  qed
qed

lemma create_order_non_negative:
  "stocks_non_negative (product_repository s) \<Longrightarrow>
   stocks_non_negative (product_repository (snd (create_order now customer its s)))"
  using check_items_non_negative [of "product_repository s" its "[]"]
  by (auto simp: create_order_def split: prod.splits sum.splits)

lemma perform_non_negative:
  "stocks_non_negative (product_repository s) \<Longrightarrow>
   stocks_non_negative (product_repository (perform r s))"
  by (cases r)
    (simp_all add: create_order_non_negative get_order_def list_orders_def
      get_available_products_def split: option.splits)

lemma assigned_ids_from:
  "assigned_ids os repo =
     map Some [next_id repo .. next_id repo + int (length (filter (\<lambda>ord. order_id ord = None) os)) - 1]"
proof (induction os arbitrary: repo)
  case Nil
  then show ?case by (simp add: assigned_ids_def)
next
  case (Cons ord os)
  obtain ord' repo' where sv: "save ord repo = (ord', repo')"
    by (cases "save ord repo")
  obtain saved repo'' where rest: "save_all os repo' = (saved, repo'')"
    by (cases "save_all os repo'")
  have step: "assigned_ids (ord # os) repo =
      (if order_id ord = None then [order_id ord'] else []) @ assigned_ids os repo'"
    by (simp add: assigned_ids_def sv rest)
  show ?case
  proof (cases "order_id ord")
    case None
    then have "ord' = ord\<lparr>order_id := Some (next_id repo)\<rparr>" and "next_id repo' = next_id repo + 1"
      using sv by (auto simp: save_def Let_def)
    with None show ?thesis
      by (simp add: step Cons.IH upto_rec1 [of "next_id repo"] add.commute add.left_commute)
  next
    case (Some i)
    then have "next_id repo' = next_id repo"
      using sv by (auto simp: save_def)
    with Some show ?thesis
      by (simp add: step Cons.IH)
  qed
qed

text \<open>
  What a repository holds after a run of \<^verbatim>\<open>save\<close> calls: under an identifier, the last
  order saved with it, or what was there before when no saved order has it. Its keys stay
  distinct, as those of a \<^verbatim>\<open>dict\<close> are.
\<close>

lemma save_lookup:
  assumes "save ord repo = (ord', repo')"
  shows "order_id ord' \<noteq> None"
    and "map_of (orders repo') i = (if order_id ord' = Some i then Some ord' else map_of (orders repo) i)"
    and "distinct (map fst (orders repo)) \<Longrightarrow> distinct (map fst (orders repo'))"
  using assms
  by (auto simp: save_def Let_def AList.update_conv' AList.distinct_update split: option.splits)

lemma save_all_lookup:
  "map_of (orders (snd (save_all os repo))) i =
     (case filter (\<lambda>ord. order_id ord = Some i) (fst (save_all os repo)) of
        [] \<Rightarrow> map_of (orders repo) i
      | ord # rest \<Rightarrow> Some (last (ord # rest)))"
proof (induction os arbitrary: repo)
  case Nil
  then show ?case by simp
next
  case (Cons ord os)
  obtain ord' repo' where sv: "save ord repo = (ord', repo')"
    by (cases "save ord repo")
  obtain saved repo'' where rest: "save_all os repo' = (saved, repo'')"
    by (cases "save_all os repo'")
  from Cons.IH [of repo'] rest save_lookup(2) [OF sv, of i] show ?case
    by (auto simp: sv split: list.splits)
qed

lemma save_all_distinct:
  "distinct (map fst (orders repo)) \<Longrightarrow> distinct (map fst (orders (snd (save_all os repo))))"
proof (induction os arbitrary: repo)
  case Nil
  then show ?case by simp
next
  case (Cons ord os)
  obtain ord' repo' where sv: "save ord repo = (ord', repo')"
    by (cases "save ord repo")
  obtain saved repo'' where rest: "save_all os repo' = (saved, repo'')"
    by (cases "save_all os repo'")
  from Cons.IH [of repo'] save_lookup(3) [OF sv Cons.prems] rest show ?case
    by (simp add: sv)
qed

text \<open>
  The items of a request that went through refer to the catalogue's own objects: read in
  the catalogue after the loop, the product of an item has the stock that the whole
  request left, whatever it was when the item was built.
\<close>

lemma check_items_shares_products:
  assumes "in_stock ps [] its"
    and "\<forall>it\<in>set its. fits_float (snd it)"
    and "check_items its [] ps = (Inr new, ps')"
    and "item \<in> set new"
  shows "\<exists>p. item_product ps item = Some p \<and>
             item_product ps' item = Some (p\<lparr>stock := stock p - requested (product_key item) its\<rparr>) \<and>
             product item = product_fixed.truncate p"
proof -
  from check_items_in_stock [OF assms(1,2), of ps "[]"] assms(3)
  have built: "list_all2 (\<lambda>item it. \<exists>p. product_find_by_id (fst it) ps = Some p \<and>
                         item = OrderItem_new (fst it) p (snd it)) new its"
    and final: "\<And>k. product_find_by_id k ps' = reduced ps its k"
    by (auto simp: reduced_Nil)
  from built assms(4) obtain it p where
    p: "product_find_by_id (fst it) ps = Some p" and item: "item = OrderItem_new (fst it) p (snd it)"
    by (auto simp: in_set_conv_nth list_all2_conv_all_nth)
  have key: "product_key item = fst it"
    by (simp add: item OrderItem_new_def)
  from final [of "fst it"] p show ?thesis
    by (simp add: item_product_def key reduced_def product_find_by_id_def item OrderItem_new_def)
qed


section \<open>The properties\<close>

lemmas service_defs = create_order_def save_def Let_def Order_new_def send_order_confirmation_def
  total_def subtotal_def number_add_def OrderItem_new_def product_fixed.truncate_def
  float_of_int_bound update_stock_def

lemmas seeded_defs = get_order_service_def InMemoryProductRepository_init_def
  InMemoryOrderRepository_init_def get_notification_service_def product_find_by_id_def

lemma shared_product_example:
  "map (\<lambda>item. map_option stock (item_product
          (product_repository (snd (create_order 0 ''Ana'' [(1, 1), (1, 2)] (get_order_service ''email''))))
          item))
     (case fst (create_order 0 ''Ana'' [(1, 1), (1, 2)] (get_order_service ''email'')) of
        Inl e \<Rightarrow> [] | Inr ord \<Rightarrow> items ord)
   = [Some 2, Some 2]"
  by (simp add: service_defs seeded_defs item_product_def)




text \<open>
  Claim C2. When the pairs before a pair \<open>(pid, qty)\<close> have been processed, leaving the
  catalogue \<open>ps'\<close>, and the product under \<open>pid\<close> has there a stock below \<open>qty\<close>,
  \<open>create_order\<close> fails with the insufficient-stock error carrying the product's name, that
  stock and \<open>qty\<close>; the order repository (and the outbox) are as before the call, and the
  catalogue is \<open>ps'\<close>.
\<close>

theorem create_order_insufficient_stock:
  assumes "check_items pre [] (product_repository s) = (Inr served, ps')"
    and "product_find_by_id pid ps' = Some p"
    and "stock p < qty"
  shows "create_order now customer (pre @ (pid, qty) # rest) s
           = (Inl (InsufficientStock (name p) (stock p) qty), s\<lparr>product_repository := ps'\<rparr>) \<and>
         order_repository (snd (create_order now customer (pre @ (pid, qty) # rest) s))
           = order_repository s"
  using assms by (simp add: create_order_def check_items_append)

text \<open>
  The scenario of the demonstration: ten laptops against a stock of five.
\<close>

theorem create_order_insufficient_stock_witness:
  "create_order 1 ''Carlos Ruiz'' [(1, 10)] (get_order_service ''email'')
     = (Inl (InsufficientStock ''Laptop Gaming'' 5 10), get_order_service ''email'') \<and>
   order_find_all (order_repository (snd (create_order 1 ''Carlos Ruiz'' [(1, 10)] (get_order_service ''email'')))) = []"
proof -
  let ?s = "get_order_service ''email''"
  let ?p = "\<lparr>product_id = 1, name = ''Laptop Gaming'', price = float_lit 1200, stock = 5\<rparr>"
  have h1: "check_items [] [] (product_repository ?s) = (Inr [], product_repository ?s)"
    by simp
  have h2: "product_find_by_id 1 (product_repository ?s) = Some ?p"
    by (simp add: seeded_defs)
  have h3: "stock ?p < 10"
    by simp
  from create_order_insufficient_stock [OF h1 h2 h3, of 1 "''Carlos Ruiz''" "[]"]
  show ?thesis
    by (simp add: order_find_all_def get_order_service_def InMemoryOrderRepository_init_def)
qed

text \<open>
  Claim C3, as amended. When the pairs before the first pair with an identifier that the
  catalogue does not have all pass the stock check and have quantities that convert to a
  float, \<open>create_order\<close> fails with the product-not-found error for that identifier; the
  order repository and the outbox are as before, the catalogue keeps its keys, and each
  product's stock is reduced by what the pairs before the failing one ask of it, whatever
  follows the failing pair.
\<close>

theorem create_order_product_not_found:
  assumes "in_stock (product_repository s) [] pre"
    and "\<forall>it\<in>set pre. fits_float (snd it)"
    and "product_find_by_id pid (product_repository s) = None"
  shows "\<exists>ps'. create_order now customer (pre @ (pid, qty) # rest) s
                  = (Inl (ProductNotFound pid), s\<lparr>product_repository := ps'\<rparr>) \<and>
               map fst ps' = map fst (product_repository s) \<and>
               (\<forall>k p. product_find_by_id k (product_repository s) = Some p \<longrightarrow>
                  product_find_by_id k ps' = Some (p\<lparr>stock := stock p - requested k pre\<rparr>))"
proof -
  from check_items_in_stock [OF assms(1,2), of "product_repository s" "[]"]
  obtain served ps' where
    run: "check_items pre [] (product_repository s) = (Inr served, ps')"
    and keys: "map fst ps' = map fst (product_repository s)"
    and final: "\<And>k. product_find_by_id k ps' = reduced (product_repository s) pre k"
    by (auto simp: reduced_Nil)
  have "product_find_by_id pid ps' = None"
    using final [of pid] assms(3) by (simp add: reduced_def)
  then have "create_order now customer (pre @ (pid, qty) # rest) s
               = (Inl (ProductNotFound pid), s\<lparr>product_repository := ps'\<rparr>)"
    by (simp add: create_order_def check_items_append run)
  moreover have "\<forall>k p. product_find_by_id k (product_repository s) = Some p \<longrightarrow>
                  product_find_by_id k ps' = Some (p\<lparr>stock := stock p - requested k pre\<rparr>)"
    using final by (simp add: reduced_def)
  ultimately show ?thesis
    using keys by blast
qed

text \<open>
  Without the conditions on the earlier pairs the claim fails. The first request below
  asks for more laptops than there are, and the call fails on that before it reaches the
  unknown identifier 99; in the second the first pair passes the stock check, but its
  subtotal cannot be computed and the call raises \<^verbatim>\<open>OverflowError\<close>.
\<close>

theorem create_order_product_not_found_counterexample:
  "product_find_by_id 99 (product_repository (get_order_service ''email'')) = None \<and>
   fst (create_order 0 ''Ana'' [(1, 10), (99, 1)] (get_order_service ''email''))
     = Inl (InsufficientStock ''Laptop Gaming'' 5 10) \<and>
   in_stock (product_repository (get_order_service ''email'')) [] [(1, - (2 ^ 1024))] \<and>
   fst (create_order 0 ''Ana'' [(1, - (2 ^ 1024)), (99, 1)] (get_order_service ''email''))
     = Inl OverflowError"
  by (simp add: create_order_def seeded_defs subtotal_def OrderItem_new_def float_of_int_bound)

text \<open>
  Three mice are taken before the unknown identifier is met; the laptop after it is not.
\<close>

theorem create_order_product_not_found_witness:
  "\<exists>ps'. create_order 0 ''Ana'' [(2, 3), (99, 1), (1, 1)] (get_order_service ''email'')
            = (Inl (ProductNotFound 99), (get_order_service ''email'')\<lparr>product_repository := ps'\<rparr>) \<and>
         map_option stock (product_find_by_id 2 ps') = Some 17 \<and>
         map_option stock (product_find_by_id 1 ps') = Some 5"
proof -
  let ?s = "get_order_service ''email''"
  have h1: "in_stock (product_repository ?s) [] [(2, 3)]"
    by (simp add: seeded_defs requested_def)
  have h2: "\<forall>it\<in>set [(2, 3 :: int)] :: (int \<times> int) set. fits_float (snd it)"
    by (simp add: fits_float_def)
  have h3: "product_find_by_id 99 (product_repository ?s) = None"
    by (simp add: seeded_defs)
  from create_order_product_not_found [OF h1 h2 h3, of 0 "''Ana''" 1 "[(1, 1)]"]
  obtain ps' where
    run: "create_order 0 ''Ana'' [(2, 3), (99, 1), (1, 1)] ?s
            = (Inl (ProductNotFound 99), ?s\<lparr>product_repository := ps'\<rparr>)"
    and stocks: "\<And>k p. product_find_by_id k (product_repository ?s) = Some p \<Longrightarrow>
                  product_find_by_id k ps' = Some (p\<lparr>stock := stock p - requested k [(2, 3)]\<rparr>)"
    by auto
  have "map_option stock (product_find_by_id 2 ps') = Some 17"
    using stocks [of 2] by (simp add: seeded_defs requested_def)
  moreover have "map_option stock (product_find_by_id 1 ps') = Some 5"
    using stocks [of 1] by (simp add: seeded_defs requested_def)
  ultimately show ?thesis
    using run by blast
qed

text \<open>
  Claim C4. From a catalogue with no negative stock, no sequence of calls of the service,
  returning or raising, leads to a catalogue with a negative stock.
\<close>

theorem stock_never_negative:
  "stocks_non_negative (product_repository s) \<Longrightarrow>
   stocks_non_negative (product_repository (fold perform reqs s))"
  by (induction reqs arbitrary: s) (simp_all add: perform_non_negative)

text \<open>
  A run with a successful order, an order that fails at its second pair and one lookup
  that fails.
\<close>

theorem stock_never_negative_witness:
  "stocks_non_negative (product_repository (get_order_service ''email'')) \<and>
   stocks_non_negative (product_repository
     (fold perform
        [GetAvailableProducts, CreateOrder 0 ''Ana'' [(1, 1), (2, 2), (4, 1)],
         CreateOrder 1 ''Carlos Ruiz'' [(1, 4), (1, 1), (7, 1)], GetOrder 5, ListOrders]
        (get_order_service ''email''))) \<and>
   map (\<lambda>pr. stock (snd pr)) (product_repository
     (fold perform
        [GetAvailableProducts, CreateOrder 0 ''Ana'' [(1, 1), (2, 2), (4, 1)],
         CreateOrder 1 ''Carlos Ruiz'' [(1, 4), (1, 1), (7, 1)], GetOrder 5, ListOrders]
        (get_order_service ''email''))) = [0, 18, 15, 7]"
proof -
  have h: "stocks_non_negative (product_repository (get_order_service ''email''))"
    by (simp add: stocks_non_negative_def seeded_defs)
  have "map (\<lambda>pr. stock (snd pr)) (product_repository
     (fold perform
        [GetAvailableProducts, CreateOrder 0 ''Ana'' [(1, 1), (2, 2), (4, 1)],
         CreateOrder 1 ''Carlos Ruiz'' [(1, 4), (1, 1), (7, 1)], GetOrder 5, ListOrders]
        (get_order_service ''email''))) = [0, 18, 15, 7]"
    by (simp add: get_available_products_def list_orders_def get_order_def service_defs
        order_find_by_id_def seeded_defs)
  with h stock_never_negative [OF h] show ?thesis
    by blast
qed

text \<open>
  Claim C5. On a fresh repository, the identifiers given by any run of \<^verbatim>\<open>save\<close> calls to
  the orders that came without one are 1, 2, 3, ... in the order of the calls, however
  many orders with an identifier of their own are saved in between.
\<close>

theorem assigned_ids_sequential:
  "assigned_ids os InMemoryOrderRepository_init =
     map Some [1 .. int (length (filter (\<lambda>ord. order_id ord = None) os))]"
  by (simp add: assigned_ids_from InMemoryOrderRepository_init_def)

text \<open>
  Claim C6. Saving an order that has the identifier \<open>i\<close> leaves the order and the counter
  as they are and stores the order under \<open>i\<close>: it is then found under \<open>i\<close>, the other
  identifiers are untouched, a record already under \<open>i\<close> is replaced where it stands, and
  saving the order once more changes nothing.
\<close>

theorem save_existing:
  assumes "order_id ord = Some i"
  shows "fst (save ord repo) = ord \<and>
         next_id (snd (save ord repo)) = next_id repo \<and>
         order_find_by_id i (snd (save ord repo)) = Some ord \<and>
         (\<forall>j. j \<noteq> i \<longrightarrow> order_find_by_id j (snd (save ord repo)) = order_find_by_id j repo) \<and>
         (i \<in> set (map fst (orders repo)) \<longrightarrow>
            map fst (orders (snd (save ord repo))) = map fst (orders repo)) \<and>
         save ord (snd (save ord repo)) = save ord repo"
  using assms by (simp add: save_def order_find_by_id_def AList.update_conv' AList.update_keys)

text \<open>
  Two saves under the identifier 3: the second record replaces the first.
\<close>

theorem save_existing_witness:
  "order_find_by_id 3
     (snd (save \<lparr>order_id = Some 3, customer_name = ''Ana'', items = [], status = ''paid'', created_at = 9\<rparr>
        (snd (save \<lparr>order_id = Some 3, customer_name = ''Ana'', items = [], status = ''pending'', created_at = 9\<rparr>
           InMemoryOrderRepository_init))))
     = Some \<lparr>order_id = Some 3, customer_name = ''Ana'', items = [], status = ''paid'', created_at = 9\<rparr> \<and>
   next_id
     (snd (save \<lparr>order_id = Some 3, customer_name = ''Ana'', items = [], status = ''paid'', created_at = 9\<rparr>
        (snd (save \<lparr>order_id = Some 3, customer_name = ''Ana'', items = [], status = ''pending'', created_at = 9\<rparr>
           InMemoryOrderRepository_init)))) = 1 \<and>
   map fst (orders
     (snd (save \<lparr>order_id = Some 3, customer_name = ''Ana'', items = [], status = ''paid'', created_at = 9\<rparr>
        (snd (save \<lparr>order_id = Some 3, customer_name = ''Ana'', items = [], status = ''pending'', created_at = 9\<rparr>
           InMemoryOrderRepository_init))))) = [3]"
proof -
  let ?a = "\<lparr>order_id = Some 3, customer_name = ''Ana'', items = [], status = ''pending'', created_at = 9\<rparr>"
  let ?b = "\<lparr>order_id = Some 3, customer_name = ''Ana'', items = [], status = ''paid'', created_at = 9\<rparr>"
  let ?r = "snd (save ?a InMemoryOrderRepository_init)"
  have hb: "order_id ?b = Some 3"
    by simp
  have keys: "map fst (orders ?r) = [3]" and nid: "next_id ?r = 1"
    by (simp_all add: save_def InMemoryOrderRepository_init_def)
  from save_existing [OF hb, of ?r] keys nid show ?thesis
    by simp
qed

text \<open>
  Claim C7. \<open>update_stock\<close> leaves a catalogue without the key as it is; for a key of the
  catalogue it stores the new stock, any integer, in the product under the key, whose
  other fields it keeps, and leaves the other products and the order of the keys alone.
\<close>

theorem update_stock_frame:
  "(pid \<notin> set (map fst ps) \<longrightarrow> update_stock pid new_stock ps = ps) \<and>
   (product_find_by_id pid ps = Some p \<longrightarrow>
      product_find_by_id pid (update_stock pid new_stock ps) = Some (p\<lparr>stock := new_stock\<rparr>)) \<and>
   (k \<noteq> pid \<longrightarrow>
      product_find_by_id k (update_stock pid new_stock ps) = product_find_by_id k ps) \<and>
   map fst (update_stock pid new_stock ps) = map fst ps"
  by (simp add: product_find_by_id_def map_of_update_stock map_fst_update_stock)
    (simp add: update_stock_def)

text \<open>
  On the seeded catalogue: an unknown key, and a negative stock for the laptop.
\<close>

theorem update_stock_frame_witness:
  "update_stock 9 3 InMemoryProductRepository_init = InMemoryProductRepository_init \<and>
   product_find_by_id 1 (update_stock 1 (- 3) InMemoryProductRepository_init)
     = Some \<lparr>product_id = 1, name = ''Laptop Gaming'', price = float_lit 1200, stock = - 3\<rparr> \<and>
   product_find_by_id 2 (update_stock 1 (- 3) InMemoryProductRepository_init)
     = product_find_by_id 2 InMemoryProductRepository_init"
proof -
  let ?ps = InMemoryProductRepository_init
  let ?p = "\<lparr>product_id = 1, name = ''Laptop Gaming'', price = float_lit 1200, stock = 5\<rparr>"
  have h1: "9 \<notin> set (map fst ?ps)"
    by (simp add: InMemoryProductRepository_init_def)
  have h2: "product_find_by_id 1 ?ps = Some ?p"
    by (simp add: seeded_defs)
  have h3: "(2::int) \<noteq> 1"
    by simp
  from update_stock_frame [of 9 ?ps 3 ?p 2] h1
  have "update_stock 9 3 ?ps = ?ps"
    by blast
  moreover from update_stock_frame [of 1 ?ps "- 3" ?p 2] h2 h3
  have "product_find_by_id 1 (update_stock 1 (- 3) ?ps) = Some (?p\<lparr>stock := - 3\<rparr>)"
    and "product_find_by_id 2 (update_stock 1 (- 3) ?ps) = product_find_by_id 2 ?ps"
    by blast+
  ultimately show ?thesis
    by simp
qed

text \<open>
  Claim C8. \<open>get_order\<close> fails with the order-not-found error exactly when the identifier
  is not a key of the repository's \<open>orders\<close>; the order that \<open>orders\<close> holds under the
  identifier is returned (the keys of a \<^verbatim>\<open>dict\<close> are distinct); and the service is left
  as it is. In a repository built by \<^verbatim>\<open>save\<close> calls from a fresh one, the call returns the
  last order saved with the identifier, and fails when no saved order has it.
\<close>

theorem get_order_spec:
  "((fst (get_order oid s) = Inl (OrderNotFound oid))
      = (oid \<notin> fst ` set (orders (order_repository s)))) \<and>
   (distinct (map fst (orders (order_repository s))) \<and>
    (oid, ord) \<in> set (orders (order_repository s)) \<longrightarrow> fst (get_order oid s) = Inr ord) \<and>
   snd (get_order oid s) = s \<and>
   (order_repository s = snd (save_all os InMemoryOrderRepository_init) \<longrightarrow>
      fst (get_order oid s) =
        (case filter (\<lambda>ord. order_id ord = Some oid) (fst (save_all os InMemoryOrderRepository_init)) of
           [] \<Rightarrow> Inl (OrderNotFound oid)
         | ord # rest \<Rightarrow> Inr (last (ord # rest))))"
proof -
  have absent: "(fst (get_order oid s) = Inl (OrderNotFound oid))
      = (oid \<notin> fst ` set (orders (order_repository s)))"
    by (auto simp: get_order_def order_find_by_id_def map_of_eq_None_iff [symmetric]
        split: option.splits)
  have stored: "fst (get_order oid s) = Inr ord"
    if "distinct (map fst (orders (order_repository s)))"
      and "(oid, ord) \<in> set (orders (order_repository s))"
    using that by (simp add: get_order_def order_find_by_id_def)
  have same: "snd (get_order oid s) = s"
    by (simp add: get_order_def split: option.splits)
  have built: "fst (get_order oid s) =
        (case filter (\<lambda>ord. order_id ord = Some oid) (fst (save_all os InMemoryOrderRepository_init)) of
           [] \<Rightarrow> Inl (OrderNotFound oid)
         | ord # rest \<Rightarrow> Inr (last (ord # rest)))"
    if "order_repository s = snd (save_all os InMemoryOrderRepository_init)"
    using save_all_lookup [of os InMemoryOrderRepository_init oid] that
    by (simp add: get_order_def order_find_by_id_def InMemoryOrderRepository_init_def
        split: list.splits)
  from absent stored same built show ?thesis
    by blast
qed

text \<open>
  After two orders the identifiers 1 and 2 return the first and the second order, and 3
  is not found.
\<close>

theorem get_order_spec_witness:
  "fst (get_order 1
      (snd (create_order 20 ''Carlos Ruiz'' [(4, 2)]
         (snd (create_order 10 ''Ana'' [(2, 1)] (get_order_service ''sms''))))))
     = fst (create_order 10 ''Ana'' [(2, 1)] (get_order_service ''sms'')) \<and>
   fst (get_order 2
      (snd (create_order 20 ''Carlos Ruiz'' [(4, 2)]
         (snd (create_order 10 ''Ana'' [(2, 1)] (get_order_service ''sms''))))))
     = fst (create_order 20 ''Carlos Ruiz'' [(4, 2)]
         (snd (create_order 10 ''Ana'' [(2, 1)] (get_order_service ''sms'')))) \<and>
   fst (get_order 3
      (snd (create_order 20 ''Carlos Ruiz'' [(4, 2)]
         (snd (create_order 10 ''Ana'' [(2, 1)] (get_order_service ''sms''))))))
     = Inl (OrderNotFound 3) \<and>
   snd (get_order 3
      (snd (create_order 20 ''Carlos Ruiz'' [(4, 2)]
         (snd (create_order 10 ''Ana'' [(2, 1)] (get_order_service ''sms''))))))
     = snd (create_order 20 ''Carlos Ruiz'' [(4, 2)]
         (snd (create_order 10 ''Ana'' [(2, 1)] (get_order_service ''sms''))))"
proof -
  let ?s1 = "snd (create_order 10 ''Ana'' [(2, 1)] (get_order_service ''sms''))"
  let ?s = "snd (create_order 20 ''Carlos Ruiz'' [(4, 2)] ?s1)"
  let ?mouse = "\<lparr>product_id = 2, name = ''Mouse Inal'' @ [CHR 0xC3, CHR 0xA1] @ ''mbrico'',
                 price = float_lit (4599 / 100)\<rparr>"
  let ?monitor = "\<lparr>product_id = 4, name = ''Monitor 24'' @ [CHR 0x27],
                   price = float_lit (29999 / 100)\<rparr>"
  let ?new1 = "Order_new 10 ''Ana'' [\<lparr>product_key = 2, product = ?mouse, quantity = 1\<rparr>]"
  let ?new2 = "Order_new 20 ''Carlos Ruiz'' [\<lparr>product_key = 4, product = ?monitor, quantity = 2\<rparr>]"
  let ?o1 = "?new1\<lparr>order_id := Some 1\<rparr>"
  let ?o2 = "?new2\<lparr>order_id := Some 2\<rparr>"
  have r1: "fst (create_order 10 ''Ana'' [(2, 1)] (get_order_service ''sms'')) = Inr ?o1"
    by (simp add: service_defs seeded_defs)
  have r2: "fst (create_order 20 ''Carlos Ruiz'' [(4, 2)] ?s1) = Inr ?o2"
    by (simp add: service_defs seeded_defs)
  have repo: "orders (order_repository ?s) = [(1, ?o1), (2, ?o2)]"
    by (simp add: service_defs seeded_defs)
  have built: "order_repository ?s = snd (save_all [?new1, ?new2] InMemoryOrderRepository_init)"
    by (simp add: service_defs seeded_defs)
  have h1: "distinct (map fst (orders (order_repository ?s))) \<and> (1, ?o1) \<in> set (orders (order_repository ?s))"
    unfolding repo by simp
  have h2: "distinct (map fst (orders (order_repository ?s))) \<and> (2, ?o2) \<in> set (orders (order_repository ?s))"
    unfolding repo by simp
  from get_order_spec [of 1 ?s ?o1 "[]"] h1
  have "fst (get_order 1 ?s) = Inr ?o1"
    by blast
  moreover from get_order_spec [of 2 ?s ?o2 "[]"] h2
  have "fst (get_order 2 ?s) = Inr ?o2"
    by blast
  moreover from get_order_spec [of 3 ?s ?o2 "[?new1, ?new2]"] built
  have "fst (get_order 3 ?s) = Inl (OrderNotFound 3)" and "snd (get_order 3 ?s) = ?s"
    by (simp_all add: save_def Let_def InMemoryOrderRepository_init_def Order_new_def)
  ultimately show ?thesis
    using r1 r2 by simp
qed

text \<open>
  Claim C9, as amended. Let the pairs up to some point of the request, \<open>front\<close>, all
  name products of the catalogue and ask of one product they name more, in all, than its
  stock. Then there is a first pair of \<open>front\<close> that asks for more than what the pairs
  before it have left of its product, and, when the pairs before it have quantities that
  convert to a float, the call fails at it: the error is the insufficient-stock error
  with that product's name, its stock already reduced by the earlier pairs, and the pair's
  quantity; the catalogue keeps the reductions of the pairs before the failing one.
\<close>

theorem create_order_repeated_product:
  assumes "product_find_by_id k (product_repository s) = Some p"
    and "k \<in> fst ` set front"
    and "stock p < requested k front"
    and "\<forall>it\<in>set front. fst it \<in> set (map fst (product_repository s))"
  shows "\<exists>pre j q rest pj.
           front = pre @ (j, q) # rest \<and>
           in_stock (product_repository s) [] pre \<and>
           product_find_by_id j (product_repository s) = Some pj \<and>
           stock pj - requested j pre < q \<and>
           ((\<forall>it\<in>set pre. fits_float (snd it)) \<longrightarrow>
              (\<exists>ps'. create_order now customer (front @ tail) s
                        = (Inl (InsufficientStock (name pj) (stock pj - requested j pre) q),
                           s\<lparr>product_repository := ps'\<rparr>) \<and>
                     map fst ps' = map fst (product_repository s) \<and>
                     (\<forall>i pi. product_find_by_id i (product_repository s) = Some pi \<longrightarrow>
                        product_find_by_id i ps' = Some (pi\<lparr>stock := stock pi - requested i pre\<rparr>))))"
proof -
  let ?ps = "product_repository s"
  have "\<not> in_stock ?ps [] front"
    using in_stock_requested_le [OF _ assms(1,2)] assms(3) by fastforce
  from first_failing_pair [OF this] obtain pre j q rest where
    front: "front = pre @ (j, q) # rest" and pre: "in_stock ?ps [] pre"
    and fails: "\<And>pj. product_find_by_id j ?ps = Some pj \<Longrightarrow> stock pj - requested j pre < q"
    by auto
  from assms(4) front have "j \<in> fst ` set ?ps"
    by auto
  then have "map_of ?ps j \<noteq> None"
    by (simp add: map_of_eq_None_iff)
  then obtain pj where pj: "product_find_by_id j ?ps = Some pj"
    by (auto simp: product_find_by_id_def)
  with fails have short: "stock pj - requested j pre < q"
    by simp
  have "\<exists>ps'. create_order now customer (front @ tail) s
                        = (Inl (InsufficientStock (name pj) (stock pj - requested j pre) q),
                           s\<lparr>product_repository := ps'\<rparr>) \<and>
                     map fst ps' = map fst ?ps \<and>
                     (\<forall>i pi. product_find_by_id i ?ps = Some pi \<longrightarrow>
                        product_find_by_id i ps' = Some (pi\<lparr>stock := stock pi - requested i pre\<rparr>))"
    if fits: "\<forall>it\<in>set pre. fits_float (snd it)"
  proof -
    from check_items_in_stock [OF pre fits, of ?ps "[]"]
    obtain served ps' where
      run: "check_items pre [] ?ps = (Inr served, ps')"
      and keys: "map fst ps' = map fst ?ps"
      and final: "\<And>i. product_find_by_id i ps' = reduced ?ps pre i"
      by (auto simp: reduced_Nil)
    have now_j: "product_find_by_id j ps' = Some (pj\<lparr>stock := stock pj - requested j pre\<rparr>)"
      using final [of j] pj by (simp add: reduced_def)
    have "create_order now customer (front @ tail) s
            = (Inl (InsufficientStock (name pj) (stock pj - requested j pre) q),
               s\<lparr>product_repository := ps'\<rparr>)"
      using short by (simp add: front create_order_def check_items_append run now_j)
    moreover have "\<forall>i pi. product_find_by_id i ?ps = Some pi \<longrightarrow>
                product_find_by_id i ps' = Some (pi\<lparr>stock := stock pi - requested i pre\<rparr>)"
      using final by (simp add: reduced_def)
    ultimately show ?thesis
      using keys by blast
  qed
  with front pre pj short show ?thesis
    by blast
qed

text \<open>
  Without the conditions on the earlier pairs the claim fails. The first request below
  asks for six laptops of five, and the call fails on the unknown identifier 99 first; the
  second asks for 21 mice of 20, and the call raises \<^verbatim>\<open>OverflowError\<close> on the subtotal
  of its first pair.
\<close>

theorem create_order_repeated_product_counterexample:
  "map_option stock (product_find_by_id 1 (product_repository (get_order_service ''email''))) = Some 5 \<and>
   requested 1 [(99, 1), (1, 3), (1, 3)] = 6 \<and>
   fst (create_order 0 ''Ana'' [(99, 1), (1, 3), (1, 3)] (get_order_service ''email''))
     = Inl (ProductNotFound 99) \<and>
   map_option stock (product_find_by_id 2 (product_repository (get_order_service ''email''))) = Some 20 \<and>
   requested 2 [(1, - (2 ^ 1024)), (2, 21)] = 21 \<and>
   fst (create_order 0 ''Ana'' [(1, - (2 ^ 1024)), (2, 21)] (get_order_service ''email''))
     = Inl OverflowError"
  by (simp add: create_order_def seeded_defs requested_def subtotal_def OrderItem_new_def
      float_of_int_bound)

text \<open>
  Three laptops twice, of five, and then an unknown identifier: the second pair finds
  two left.
\<close>

theorem create_order_repeated_product_witness:
  "(\<exists>pre j q rest pj.
      [(1, 3), (1, 3)] = pre @ (j, q) # rest \<and>
      product_find_by_id j (product_repository (get_order_service ''email'')) = Some pj \<and>
      fst (create_order 0 ''Ana'' ([(1, 3), (1, 3)] @ [(99, 1)]) (get_order_service ''email''))
        = Inl (InsufficientStock (name pj) (stock pj - requested j pre) q)) \<and>
   fst (create_order 0 ''Ana'' ([(1, 3), (1, 3)] @ [(99, 1)]) (get_order_service ''email''))
     = Inl (InsufficientStock ''Laptop Gaming'' 2 3) \<and>
   map_option stock (product_find_by_id 1
      (product_repository (snd (create_order 0 ''Ana'' ([(1, 3), (1, 3)] @ [(99, 1)]) (get_order_service ''email'')))))
     = Some 2"
proof -
  let ?s = "get_order_service ''email''"
  let ?p = "\<lparr>product_id = 1, name = ''Laptop Gaming'', price = float_lit 1200, stock = 5\<rparr>"
  let ?front = "[(1, 3), (1, 3)] :: (int \<times> int) list"
  have h1: "product_find_by_id 1 (product_repository ?s) = Some ?p"
    by (simp add: seeded_defs)
  have h2: "1 \<in> fst ` set ?front"
    by simp
  have h3: "stock ?p < requested 1 ?front"
    by (simp add: requested_def)
  have h4: "\<forall>it\<in>set ?front. fst it \<in> set (map fst (product_repository ?s))"
    by (simp add: seeded_defs)
  from create_order_repeated_product [OF h1 h2 h3 h4, of 0 "''Ana''" "[(99, 1)]"]
  obtain pre j q rest pj where
    split: "?front = pre @ (j, q) # rest"
    and pj: "product_find_by_id j (product_repository ?s) = Some pj"
    and run: "(\<forall>it\<in>set pre. fits_float (snd it)) \<Longrightarrow>
               fst (create_order 0 ''Ana'' (?front @ [(99, 1)]) ?s)
                 = Inl (InsufficientStock (name pj) (stock pj - requested j pre) q)"
    by (metis fst_conv)
  from split have "set pre \<subseteq> set ?front"
    by (metis set_append Un_upper1)
  then have "\<forall>it\<in>set pre. fits_float (snd it)"
    by (auto simp: fits_float_def)
  from run [OF this] split pj
  have "\<exists>pre j q rest pj.
      ?front = pre @ (j, q) # rest \<and>
      product_find_by_id j (product_repository ?s) = Some pj \<and>
      fst (create_order 0 ''Ana'' (?front @ [(99, 1)]) ?s)
        = Inl (InsufficientStock (name pj) (stock pj - requested j pre) q)"
    by blast
  moreover have "fst (create_order 0 ''Ana'' (?front @ [(99, 1)]) ?s)
     = Inl (InsufficientStock ''Laptop Gaming'' 2 3)"
    by (simp add: service_defs seeded_defs)
  moreover have "map_option stock (product_find_by_id 1
      (product_repository (snd (create_order 0 ''Ana'' (?front @ [(99, 1)]) ?s)))) = Some 2"
    by (simp add: service_defs seeded_defs)
  ultimately show ?thesis
    by blast
qed

text \<open>
  Claim C10. With no pairs \<open>create_order\<close> returns an order with no items, total 0 and
  status "pending", under the identifier the repository's counter gives, which advances;
  the order is stored under it, the catalogue is as before, and the notifier is sent the
  order.
\<close>

theorem create_order_empty:
  "\<exists>ord s'. create_order now customer [] s = (Inr ord, s') \<and>
     ord = \<lparr>order_id = Some (next_id (order_repository s)), customer_name = customer,
            items = [], status = ''pending'', created_at = now\<rparr> \<and>
     total ord = Inr (PyInt 0) \<and>
     order_find_by_id (next_id (order_repository s)) (order_repository s') = Some ord \<and>
     next_id (order_repository s') = next_id (order_repository s) + 1 \<and>
     product_repository s' = product_repository s \<and>
     sent s' = sent s @ [(notifier s, ord)]"
  by (simp add: create_order_def save_def Let_def Order_new_def send_order_confirmation_def
      total_def order_find_by_id_def AList.update_conv')

end
